theory Spec2Isabelle
  imports Main
begin

section \<open>Values, errors and checked indexing\<close>

text \<open>
  The Python exceptions the core can raise. \<open>InvalidArgument\<close> is the bare
  \<^verbatim>\<open>Exception\<close> that \<^verbatim>\<open>to_matr\<close> raises for a weight kind other than 0 and 1.
\<close>

datatype error = IndexError | KeyError | InvalidArgument

text \<open>
  A matrix cell and a running cost are Python numbers: either a finite number or
  \<^verbatim>\<open>math.inf\<close>. Finite numbers are taken from a linearly ordered type with an
  addition (exact arithmetic; the rounding, overflow and NaN of binary floating point are
  not modelled).
\<close>

datatype 'a weight = Fin 'a | Inf

fun wlt :: "'a::linorder weight \<Rightarrow> 'a weight \<Rightarrow> bool" where
  "wlt (Fin a) (Fin b) = (a < b)"
| "wlt (Fin a) Inf = True"
| "wlt Inf w = False"

fun wadd :: "'a::monoid_add weight \<Rightarrow> 'a weight \<Rightarrow> 'a weight" where
  "wadd (Fin a) (Fin b) = Fin (a + b)"
| "wadd (Fin a) Inf = Inf"
| "wadd Inf w = Inf"

text \<open>
  Station indices, list positions and the station count are natural numbers (the driver
  produces them with \<^verbatim>\<open>len(v)\<close>); negative Python integers, which index a list
  from its end, are not station indices and are outside the model. Reading a list beyond
  its end raises IndexError.
\<close>

definition nth_py :: "'a list \<Rightarrow> nat \<Rightarrow> error + 'a" where
  "nth_py xs i = (if i < length xs then Inr (xs ! i) else Inl IndexError)"

text \<open>\<^verbatim>\<open>g[node][i]\<close>: the row is read first, then the column.\<close>

definition cell :: "'a list list \<Rightarrow> nat \<Rightarrow> nat \<Rightarrow> error + 'a" where
  "cell g node i = (case nth_py g node of Inl e \<Rightarrow> Inl e | Inr row \<Rightarrow> nth_py row i)"

section \<open>Route records and the station index\<close>

text \<open>
  A prepared row \<^verbatim>\<open>[int(m[0]), int(m[1]), int(m[2]), float(m[3]), time.seconds]\<close>:
  route id, origin station, destination station, price, duration in seconds.
\<close>

record 'a route =
  route_id :: int
  origin :: int
  destination :: int
  price :: 'a
  duration :: 'a

text \<open>
  The dictionary \<^verbatim>\<open>v\<close> of \<^verbatim>\<open>main\<close> is an association list in insertion order
  (Python dictionaries keep it, and \<^verbatim>\<open>vkeys\<close> relies on it). A dictionary has each key
  once, so \<^verbatim>\<open>len(v)\<close> is the length of the list.
\<close>

type_synonym station_index = "(int \<times> nat) list"

text \<open>\<^verbatim>\<open>if r[i+1] not in v: v[r[i+1]] = len(v)\<close>\<close>

definition index_station :: "station_index \<Rightarrow> int \<Rightarrow> station_index" where
  "index_station v s = (if map_of v s = None then v @ [(s, length v)] else v)"

text \<open>The loop over \<^verbatim>\<open>data\<close>; the inner loop visits \<^verbatim>\<open>r[1]\<close>, then \<^verbatim>\<open>r[2]\<close>.\<close>

fun station_loop :: "station_index \<Rightarrow> ('a, 'b) route_scheme list \<Rightarrow> station_index" where
  "station_loop v [] = v"
| "station_loop v (r # rs) =
     station_loop (index_station (index_station v (origin r)) (destination r)) rs"

definition station_indexer :: "('a, 'b) route_scheme list \<Rightarrow> station_index" where
  "station_indexer data = station_loop [] data"

text \<open>The stations in the order the indexer meets them.\<close>

definition stations :: "('a, 'b) route_scheme list \<Rightarrow> int list" where
  "stations data = concat (map (\<lambda>r. [origin r, destination r]) data)"

section \<open>The weight matrix builder\<close>

text \<open>\<^verbatim>\<open>v[k]\<close> raises KeyError for a missing key.\<close>

definition dict_get :: "station_index \<Rightarrow> int \<Rightarrow> error + nat" where
  "dict_get v k = (case map_of v k of None \<Rightarrow> Inl KeyError | Some i \<Rightarrow> Inr i)"

text \<open>
  \<^verbatim>\<open>if item < matr[v[r[1]]][v[r[2]]]: matr[v[r[1]]][v[r[2]]] = item\<close>, in Python's
  evaluation order: \<^verbatim>\<open>v[r[1]]\<close>, the row, \<^verbatim>\<open>v[r[2]]\<close>, the cell.
\<close>

definition relax :: "station_index \<Rightarrow> 'a::linorder route \<Rightarrow> 'a \<Rightarrow> 'a weight list list
    \<Rightarrow> error + 'a weight list list" where
  "relax v r item matr =
     (case dict_get v (origin r) of Inl e \<Rightarrow> Inl e | Inr i \<Rightarrow>
       (case nth_py matr i of Inl e \<Rightarrow> Inl e | Inr row \<Rightarrow>
         (case dict_get v (destination r) of Inl e \<Rightarrow> Inl e | Inr j \<Rightarrow>
           (case nth_py row j of Inl e \<Rightarrow> Inl e | Inr w \<Rightarrow>
              if wlt (Fin item) w then Inr (list_update matr i (list_update row j (Fin item)))
              else Inr matr))))"

text \<open>The filling loop: the kind is examined once per record, inside the loop.\<close>

fun fill :: "station_index \<Rightarrow> int \<Rightarrow> 'a::linorder route list \<Rightarrow> 'a weight list list
    \<Rightarrow> error + 'a weight list list" where
  "fill v kind [] matr = Inr matr"
| "fill v kind (r # rs) matr =
     (if kind = 0 then
        (case relax v r (price r) matr of Inl e \<Rightarrow> Inl e | Inr matr' \<Rightarrow> fill v kind rs matr')
      else if kind = 1 then
        (case relax v r (duration r) matr of Inl e \<Rightarrow> Inl e | Inr matr' \<Rightarrow> fill v kind rs matr')
      else Inl InvalidArgument)"

definition to_matr :: "station_index \<Rightarrow> 'a::linorder route list \<Rightarrow> int
    \<Rightarrow> error + 'a weight list list" where
  "to_matr v data kind = fill v kind data (replicate (length v) (replicate (length v) Inf))"

section \<open>The greedy path finder\<close>

text \<open>
  The scan of \<^verbatim>\<open>next\<close> over the candidates. The state is \<^verbatim>\<open>min_node\<close> and
  \<^verbatim>\<open>this_cost\<close>; the node \<open>-1\<close> of the initial \<^verbatim>\<open>min_node\<close> is \<open>None\<close>.
  \<^verbatim>\<open>g[node][i]\<close> is read only when \<^verbatim>\<open>seen[i]\<close> is false.
\<close>

type_synonym 'a scan = "(nat option \<times> 'a weight) \<times> 'a weight"

fun next_loop :: "'a::linorder weight list list \<Rightarrow> bool list \<Rightarrow> nat \<Rightarrow> nat list \<Rightarrow> 'a scan
    \<Rightarrow> error + 'a scan" where
  "next_loop g seen node [] st = Inr st"
| "next_loop g seen node (i # cands) (min_node, this_cost) =
     (case nth_py seen i of Inl e \<Rightarrow> Inl e | Inr s \<Rightarrow>
        if s then next_loop g seen node cands (min_node, this_cost)
        else (case cell g node i of Inl e \<Rightarrow> Inl e | Inr w \<Rightarrow>
          if wlt w (snd min_node) then next_loop g seen node cands ((Some i, w), w)
          else next_loop g seen node cands (min_node, this_cost)))"

definition next_node :: "nat \<Rightarrow> 'a::{linorder,monoid_add} weight list list \<Rightarrow> bool list \<Rightarrow> nat
    \<Rightarrow> 'a weight \<Rightarrow> error + ('a weight \<times> nat) option" where
  "next_node N g seen node curr_cost =
     (case next_loop g seen node [0..<N] ((None, Inf), Fin 0) of
        Inl e \<Rightarrow> Inl e
      | Inr (min_node, this_cost) \<Rightarrow>
          (case fst min_node of
             None \<Rightarrow> Inr None
           | Some i \<Rightarrow> Inr (Some (wadd curr_cost this_cost, i))))"

text \<open>
  The state of one search is the visited list and the path. \<^verbatim>\<open>tsp\<close> returns the cost
  or \<^verbatim>\<open>None\<close>; the model returns the final state with it. The scan runs before the
  length of the path is examined, as in the source. \<^verbatim>\<open>not next_nd\<close> holds for
  \<^verbatim>\<open>None\<close> only, since a pair is never false.
\<close>

type_synonym search = "bool list \<times> nat list"

function tsp :: "nat \<Rightarrow> 'a::{linorder,monoid_add} weight list list \<Rightarrow> search \<Rightarrow> nat \<Rightarrow> 'a weight
    \<Rightarrow> error + (search \<times> 'a weight option)" where
  "tsp N g (seen, path) node cost =
     (if \<not> node < length seen then Inl IndexError
      else
        (case next_node N g (seen[node := True]) node cost of
           Inl e \<Rightarrow> Inl e
         | Inr next_nd \<Rightarrow>
             if length (path @ [node]) = N then Inr ((seen[node := True], path @ [node]), Some cost)
             else
               (case next_nd of
                  None \<Rightarrow> Inr ((seen[node := True], path @ [node]), None)
                | Some (cost', node') \<Rightarrow> tsp N g (seen[node := True], path @ [node]) node' cost')))"
  by pat_completeness auto
termination
proof (relation "measure (\<lambda>(N, g, (seen, path), node, cost). length (filter Not (seen[node := True])))")
  show "wf (measure (\<lambda>(N, g, (seen, path), node, cost). length (filter Not (seen[node := True]))))"
    by simp
next
  fix N and g :: "'a weight list list" and seen path node cost next_nd x2 cost' node'
  assume next_nd: "next_node N g (seen[node := True]) node cost = Inr next_nd"
    and some: "next_nd = Some x2" "(cost', node') = x2"
  have marks: "length (filter Not (xs[i := True])) < length (filter Not xs)"
    if "i < length xs" "\<not> xs ! i" for xs i
    using that
  proof (induction xs arbitrary: i)
    case Nil
    then show ?case by simp
  next
    case (Cons x xs)
    then show ?case
      by (cases i) (auto simp: Suc_le_eq)
  qed
  have pick: "mn = Some i \<or> (i < length vs \<and> \<not> vs ! i)"
    if "next_loop g vs node cands ((mn, m), tc) = Inr ((Some i, m'), tc')"
    for vs cands mn m tc i m' tc'
    using that
  proof (induction cands arbitrary: mn m tc)
    case Nil
    then show ?case by simp
  next
    case (Cons c cands)
    from Cons.prems show ?case
      by (auto simp: nth_py_def split: sum.splits if_splits dest: Cons.IH)
  qed
  from next_nd some obtain m tc where
    "next_loop g (seen[node := True]) node [0..<N] ((None, Inf), Fin 0) = Inr ((Some node', m), tc)"
    by (auto simp: next_node_def split: sum.splits option.splits)
  from pick [OF this]
  have "node' < length (seen[node := True])" "\<not> seen[node := True] ! node'"
    by auto
  from marks [OF this]
  show "((N, g, (seen[node := True], path @ [node]), node', cost'), (N, g, (seen, path), node, cost))
        \<in> measure (\<lambda>(N, g, (seen, path), node, cost). length (filter Not (seen[node := True])))"
    by simp
qed

text \<open>
  \<^verbatim>\<open>if not result: return None\<close>: Python takes \<^verbatim>\<open>None\<close> and the number 0 for
  false.
\<close>

definition find_best :: "nat \<Rightarrow> 'a::{linorder,monoid_add} weight list list \<Rightarrow> nat
    \<Rightarrow> error + ('a weight \<times> nat list) option" where
  "find_best N g node =
     (case tsp N g (replicate N False, []) node (Fin 0) of
        Inl e \<Rightarrow> Inl e
      | Inr ((seen, path), result) \<Rightarrow>
          (case result of
             None \<Rightarrow> Inr None
           | Some c \<Rightarrow> if c = Fin 0 then Inr None else Inr (Some (c, path))))"

section \<open>The walk, call by call\<close>

text \<open>
  A call of \<^verbatim>\<open>tsp\<close> is given by the search state it starts from, its node and its
  cost. \<open>tsp_call\<close> is the recursive call that the body of \<^verbatim>\<open>tsp\<close> makes, if
  it makes one, and \<open>walk\<close> follows \<open>k\<close> of them.
\<close>

type_synonym 'a call = "search \<times> nat \<times> 'a weight"

definition tsp_call :: "nat \<Rightarrow> 'a::{linorder,monoid_add} weight list list \<Rightarrow> 'a call \<Rightarrow> 'a call option" where
  "tsp_call N g c =
     (case c of ((seen, path), node, cost) \<Rightarrow>
        if \<not> node < length seen then None
        else
          (case next_node N g (seen[node := True]) node cost of
             Inl e \<Rightarrow> None
           | Inr next_nd \<Rightarrow>
               if length (path @ [node]) = N then None
               else
                 (case next_nd of
                    None \<Rightarrow> None
                  | Some (cost', node') \<Rightarrow> Some ((seen[node := True], path @ [node]), node', cost'))))"

fun walk :: "nat \<Rightarrow> 'a::{linorder,monoid_add} weight list list \<Rightarrow> nat \<Rightarrow> 'a call \<Rightarrow> 'a call option" where
  "walk N g 0 c = Some c"
| "walk N g (Suc k) c = (case tsp_call N g c of None \<Rightarrow> None | Some c' \<Rightarrow> walk N g k c')"

section \<open>Notions of the specification\<close>

text \<open>
  The path and the visited list agree: a node occurs in the path once when it is marked,
  and not at all otherwise.
\<close>

definition consistent :: "search \<Rightarrow> bool" where
  "consistent st =
     (\<forall>i. count_list (snd st) i = (if i < length (fst st) \<and> fst st ! i then 1 else 0))"

text \<open>The sum of the weights along the consecutive pairs of a path, from the left.\<close>

definition wsum :: "'a::monoid_add weight list \<Rightarrow> 'a weight" where
  "wsum ws = foldl wadd (Fin 0) ws"

definition path_cost :: "'a::monoid_add weight list list \<Rightarrow> nat list \<Rightarrow> 'a weight" where
  "path_cost g path = wsum (map (\<lambda>k. g ! (path ! k) ! (path ! (k + 1))) [0..<length path - 1])"

text \<open>
  The weight that a record contributes under a kind, the weights of the records whose
  origin has index \<open>i\<close> and whose destination has index \<open>j\<close>, and the least of a
  list of weights (infinite when there is none).
\<close>

definition weight_of :: "int \<Rightarrow> 'a route \<Rightarrow> 'a" where
  "weight_of kind r = (if kind = 0 then price r else duration r)"

definition contributing :: "station_index \<Rightarrow> int \<Rightarrow> 'a route list \<Rightarrow> nat \<Rightarrow> nat \<Rightarrow> 'a list" where
  "contributing v kind data i j =
     map (weight_of kind)
       (filter (\<lambda>r. map_of v (origin r) = Some i \<and> map_of v (destination r) = Some j) data)"

definition min_weight :: "'a::linorder list \<Rightarrow> 'a weight" where
  "min_weight ws = (if ws = [] then Inf else Fin (Min (set ws)))"

section \<open>The scan of the candidates\<close>

lemma next_loop_append:
  "next_loop g seen node (xs @ ys) st =
     (case next_loop g seen node xs st of Inl e \<Rightarrow> Inl e | Inr st' \<Rightarrow> next_loop g seen node ys st')"
  by (induction xs arbitrary: st) (auto split: sum.splits)

lemma nth_py_Inr [simp]: "nth_py xs i = Inr x \<longleftrightarrow> i < length xs \<and> x = xs ! i"
  by (auto simp: nth_py_def)

lemma nth_py_Inl [simp]: "nth_py xs i = Inl e \<longleftrightarrow> \<not> i < length xs \<and> e = IndexError"
  by (auto simp: nth_py_def)

lemma cell_Inr: "cell g node i = Inr w \<longleftrightarrow> node < length g \<and> i < length (g ! node) \<and> w = g ! node ! i"
  by (auto simp: cell_def split: sum.splits)

lemma wlt_Inf_iff: "wlt w Inf \<longleftrightarrow> w \<noteq> Inf"
  by (cases w) auto

lemma wlt_irrefl: "\<not> wlt w w"
  by (cases w) auto

lemma wlt_not_Inf: "wlt a b \<Longrightarrow> a \<noteq> Inf"
  by (cases a) auto

lemma wlt_below: "wlt w m \<Longrightarrow> \<not> wlt u m \<Longrightarrow> wlt w u"
  by (cases w; cases m; cases u) auto

lemma wlt_asym: "wlt a b \<Longrightarrow> \<not> wlt b a"
  by (cases a; cases b) auto

lemma next_loop_upt:
  "next_loop g seen node [0..<n] ((None, Inf), Fin 0) = Inr ((mn, m), tc) \<Longrightarrow>
     n \<le> length seen \<and>
     (\<forall>j<n. \<not> seen ! j \<longrightarrow>
        (\<exists>w. cell g node j = Inr w \<and> \<not> wlt w m \<and> (\<forall>i. mn = Some i \<longrightarrow> j < i \<longrightarrow> wlt m w))) \<and>
     (case mn of
        None \<Rightarrow> m = Inf \<and> tc = Fin 0
      | Some i \<Rightarrow> i < n \<and> \<not> seen ! i \<and> cell g node i = Inr m \<and> tc = m \<and> m \<noteq> Inf)"
proof (induction n arbitrary: mn m tc)
  case 0
  then show ?case by simp
next
  case (Suc n)
  from Suc.prems obtain mn0 m0 tc0 where
    pre: "next_loop g seen node [0..<n] ((None, Inf), Fin 0) = Inr ((mn0, m0), tc0)" and
    last: "next_loop g seen node [n] ((mn0, m0), tc0) = Inr ((mn, m), tc)"
    by (auto simp: next_loop_append split: sum.splits)
  note ih = Suc.IH [OF pre]
  from last have len: "n < length seen"
    by (auto split: sum.splits)
  show ?case
  proof (cases "seen ! n")
    case True
    with last len have "mn = mn0" "m = m0" "tc = tc0" by (auto simp: nth_py_def)
    with ih len True show ?thesis
      by (auto simp: less_Suc_eq split: option.splits)
  next
    case False
    with last len obtain w where w: "cell g node n = Inr w"
      by (auto simp: nth_py_def split: sum.splits)
    show ?thesis
    proof (cases "wlt w m0")
      case True
      with last len w False have eq: "mn = Some n" "m = w" "tc = w"
        by (auto simp: nth_py_def)
      have old: "\<exists>u. cell g node j = Inr u \<and> \<not> wlt u w \<and> wlt w u" if "j < n" "\<not> seen ! j" for j
      proof -
        from ih that obtain u where "cell g node j = Inr u" "\<not> wlt u m0" by blast
        with True show ?thesis
          using wlt_below wlt_asym by blast
      qed
      have new: "\<not> wlt w w \<and> w \<noteq> Inf"
        using True by (simp add: wlt_irrefl wlt_not_Inf)
      show ?thesis
        unfolding eq using old new w len False
        by (auto simp: less_Suc_eq)
    next
      case nlt: False
      with last len w False have eq: "mn = mn0" "m = m0" "tc = tc0"
        by (auto simp: nth_py_def)
      from ih len w nlt False show ?thesis
        unfolding eq
        by (auto simp: less_Suc_eq split: option.splits)
    qed
  qed
qed


lemma next_node_Some:
  assumes "next_node N g seen node cost = Inr (Some (c, i))"
  shows "N \<le> length seen \<and> i < N \<and> \<not> seen ! i \<and>
         (\<exists>w. cell g node i = Inr (Fin w) \<and> c = wadd cost (Fin w) \<and>
           (\<forall>j<N. \<not> seen ! j \<longrightarrow>
              (\<exists>u. cell g node j = Inr u \<and> \<not> wlt u (Fin w) \<and> (j < i \<longrightarrow> wlt (Fin w) u))))"
proof -
  from assms obtain m tc where
    scan: "next_loop g seen node [0..<N] ((None, Inf), Fin 0) = Inr ((Some i, m), tc)"
    and c: "c = wadd cost tc"
    by (auto simp: next_node_def split: sum.splits option.splits)
  from next_loop_upt [OF scan] obtain w where "m = Fin w"
    by (cases m) auto
  with next_loop_upt [OF scan] c show ?thesis
    by auto
qed

lemma next_node_None:
  assumes "next_node N g seen node cost = Inr None"
  shows "N \<le> length seen \<and> (\<forall>j<N. \<not> seen ! j \<longrightarrow> cell g node j = Inr Inf)"
proof -
  from assms obtain m tc where
    scan: "next_loop g seen node [0..<N] ((None, Inf), Fin 0) = Inr ((None, m), tc)"
    by (auto simp: next_node_def split: sum.splits option.splits)
  from next_loop_upt [OF scan] show ?thesis
    by (auto simp: wlt_Inf_iff)
qed

lemma next_loop_total:
  "\<forall>i\<in>set cands. i < length seen \<and> (\<not> seen ! i \<longrightarrow> node < length g \<and> i < length (g ! node)) \<Longrightarrow>
   \<exists>st'. next_loop g seen node cands st = Inr st'"
proof (induction cands arbitrary: st)
  case Nil
  then show ?case by simp
next
  case (Cons i cands)
  obtain mn tc where st: "st = (mn, tc)" by (cases st)
  from Cons.prems have i: "i < length seen" "\<not> seen ! i \<longrightarrow> node < length g \<and> i < length (g ! node)"
    by auto
  from Cons.prems have rest: "\<exists>st'. next_loop g seen node cands st'' = Inr st'" for st''
    by (intro Cons.IH) auto
  show ?case
    unfolding st using i rest
    by (auto simp: nth_py_def cell_def)
qed

lemma next_node_total:
  assumes "N \<le> length seen" "\<forall>i<N. \<not> seen ! i \<longrightarrow> node < length g \<and> i < length (g ! node)"
  shows "\<exists>r. next_node N g seen node cost = Inr r"
proof -
  from assms have "\<forall>i\<in>set [0..<N]. i < length seen \<and> (\<not> seen ! i \<longrightarrow> node < length g \<and> i < length (g ! node))"
    by auto
  from next_loop_total [OF this] obtain st' where
    "next_loop g seen node [0..<N] ((None, Inf), Fin 0) = Inr st'" by blast
  then show ?thesis
    by (auto simp: next_node_def split: prod.splits option.splits)
qed

lemma unseen_update_less:
  "i < length xs \<Longrightarrow> \<not> xs ! i \<Longrightarrow> length (filter Not (xs[i := True])) < length (filter Not xs)"
proof (induction xs arbitrary: i)
  case Nil
  then show ?case by simp
next
  case (Cons x xs)
  then show ?case
    by (cases i) (auto simp: Suc_le_eq)
qed

section \<open>The recursion of the walk\<close>

declare tsp.simps [simp del]

lemma tsp_call_Some:
  "tsp_call N g ((seen, path), node, cost) = Some c' \<longleftrightarrow>
     node < length seen \<and> length path + 1 \<noteq> N \<and>
     (\<exists>cost' node'. next_node N g (seen[node := True]) node cost = Inr (Some (cost', node')) \<and>
        c' = ((seen[node := True], path @ [node]), node', cost'))"
  by (auto simp: tsp_call_def split: sum.splits option.splits)

lemma tsp_rec:
  "tsp_call N g ((seen, path), node, cost) = Some ((seen', path'), node', cost') \<Longrightarrow>
   tsp N g (seen, path) node cost = tsp N g (seen', path') node' cost'"
  by (subst tsp.simps) (auto simp: tsp_call_Some)

lemma tsp_no_call:
  "tsp_call N g ((seen, path), node, cost) = None \<Longrightarrow>
   tsp N g (seen, path) node cost =
     (if \<not> node < length seen then Inl IndexError
      else case next_node N g (seen[node := True]) node cost of
        Inl e \<Rightarrow> Inl e
      | Inr r \<Rightarrow> Inr ((seen[node := True], path @ [node]),
                  if length path + 1 = N then Some cost else None))"
  by (subst tsp.simps) (auto simp: tsp_call_def split: sum.splits option.splits if_splits)

lemma tsp_call_induct [case_names stop call]:
  assumes stop: "\<And>seen path node cost.
          tsp_call N g ((seen, path), node, cost) = None \<Longrightarrow> P seen path node cost"
    and call: "\<And>seen path node cost node' cost'.
          tsp_call N g ((seen, path), node, cost) = Some ((seen[node := True], path @ [node]), node', cost') \<Longrightarrow>
          P (seen[node := True]) (path @ [node]) node' cost' \<Longrightarrow> P seen path node cost"
  shows "P seen path node cost"
proof (induction "length (filter Not (seen[node := True]))" arbitrary: seen path node cost rule: less_induct)
  case (less seen node path cost)
  show ?case
  proof (cases "tsp_call N g ((seen, path), node, cost)")
    case None
    then show ?thesis by (rule stop)
  next
    case (Some c')
    then obtain cost' node' where
      nn: "next_node N g (seen[node := True]) node cost = Inr (Some (cost', node'))"
      and c': "c' = ((seen[node := True], path @ [node]), node', cost')"
      unfolding tsp_call_Some by blast
    from next_node_Some [OF nn]
    have "node' < length (seen[node := True])" "\<not> seen[node := True] ! node'"
      by auto
    from unseen_update_less [OF this]
    have "P (seen[node := True]) (path @ [node]) node' cost'"
      by (rule less.hyps)
    with Some c' show ?thesis
      using call by blast
  qed
qed


section \<open>The path and the visited list\<close>

lemma distinct_count_list: "distinct xs \<longleftrightarrow> (\<forall>a. count_list xs a = (if a \<in> set xs then 1 else 0))"
proof (induction xs)
  case Nil
  then show ?case by simp
next
  case (Cons x xs)
  show ?case
  proof
    assume "distinct (x # xs)"
    with Cons show "\<forall>a. count_list (x # xs) a = (if a \<in> set (x # xs) then 1 else 0)"
      by auto
  next
    assume a: "\<forall>a. count_list (x # xs) a = (if a \<in> set (x # xs) then 1 else 0)"
    from a [rule_format, of x] have "count_list xs x = 0" by simp
    then have x: "x \<notin> set xs" by (simp add: count_list_0_iff)
    have "count_list xs b = (if b \<in> set xs then 1 else 0)" for b
      using a [rule_format, of b] x by (cases "b = x") (auto split: if_splits)
    with Cons x show "distinct (x # xs)" by simp
  qed
qed

lemma consistent_iff:
  "consistent (seen, path) \<longleftrightarrow> distinct path \<and> set path = {i. i < length seen \<and> seen ! i}"
proof
  assume c: "consistent (seen, path)"
  then have cnt: "count_list path i = (if i < length seen \<and> seen ! i then 1 else 0)" for i
    by (simp add: consistent_def)
  have set: "set path = {i. i < length seen \<and> seen ! i}"
  proof (rule set_eqI)
    fix i
    show "i \<in> set path \<longleftrightarrow> i \<in> {i. i < length seen \<and> seen ! i}"
      using cnt [of i] count_list_0_iff [of path i] by (auto split: if_splits)
  qed
  with cnt have "distinct path"
    unfolding distinct_count_list by auto
  with set show "distinct path \<and> set path = {i. i < length seen \<and> seen ! i}" by simp
next
  assume "distinct path \<and> set path = {i. i < length seen \<and> seen ! i}"
  then show "consistent (seen, path)"
    unfolding consistent_def distinct_count_list by auto
qed

lemma consistent_init: "consistent (replicate N False, [])"
  by (simp add: consistent_def)

lemma consistent_step:
  assumes "consistent (seen, path)" "node < length seen" "\<not> seen ! node"
  shows "consistent (seen[node := True], path @ [node])"
  unfolding consistent_def
proof (intro allI)
  fix i
  from assms(1) have cnt: "count_list path j = (if j < length seen \<and> seen ! j then 1 else 0)" for j
    by (simp add: consistent_def)
  show "count_list (snd (seen[node := True], path @ [node])) i =
        (if i < length (fst (seen[node := True], path @ [node])) \<and> fst (seen[node := True], path @ [node]) ! i
         then 1 else 0)"
    using cnt [of i] cnt [of node] assms(2,3)
    by (cases "i = node") (auto simp: nth_list_update)
qed

lemma consistent_length:
  assumes "consistent (seen, path)"
  shows "length path \<le> length seen"
    and "length path = length seen \<Longrightarrow> set path = {..<length seen}"
proof -
  from assms have d: "distinct path" and s: "set path = {i. i < length seen \<and> seen ! i}"
    by (simp_all add: consistent_iff)
  from s have sub: "set path \<subseteq> {..<length seen}" by auto
  have "card (set path) \<le> card {..<length seen}"
    by (rule card_mono) (use sub in auto)
  with d show "length path \<le> length seen"
    by (simp add: distinct_card)
  assume "length path = length seen"
  with d have "card (set path) = card {..<length seen}"
    by (simp add: distinct_card)
  with sub show "set path = {..<length seen}"
    by (intro card_subset_eq) auto
qed

text \<open>What a recursive call of the walk preserves.\<close>

lemma tsp_call_inv:
  assumes "tsp_call N g ((seen, path), node, cost) = Some ((seen', path'), node', cost')"
    and "consistent (seen, path)" "node < length seen \<Longrightarrow> \<not> seen ! node"
  shows "consistent (seen', path') \<and> \<not> seen' ! node' \<and> node' < length seen' \<and> node' < N \<and>
         length seen' = length seen \<and> path' = path @ [node]"
proof -
  from assms(1) have node: "node < length seen"
    and nn: "next_node N g (seen[node := True]) node cost = Inr (Some (cost', node'))"
    and eq: "seen' = seen[node := True]" "path' = path @ [node]"
    by (auto simp: tsp_call_Some)
  from next_node_Some [OF nn] consistent_step [OF assms(2) node assms(3) [OF node]] eq
  show ?thesis by auto
qed

lemma walk_inv:
  assumes "walk N g k ((seen0, path0), node0, cost0) = Some ((seen, path), node, cost)"
    and "consistent (seen0, path0)" "node0 < length seen0 \<Longrightarrow> \<not> seen0 ! node0"
  shows "consistent (seen, path) \<and> (node < length seen \<longrightarrow> \<not> seen ! node) \<and> length seen = length seen0 \<and>
         length path = length path0 + k \<and> (0 < k \<longrightarrow> node < length seen)"
  using assms
proof (induction k arbitrary: seen0 path0 node0 cost0)
  case 0
  then show ?case by simp
next
  case (Suc k)
  from Suc.prems(1) obtain seen1 path1 node1 cost1 where
    call: "tsp_call N g ((seen0, path0), node0, cost0) = Some ((seen1, path1), node1, cost1)"
    and rest: "walk N g k ((seen1, path1), node1, cost1) = Some ((seen, path), node, cost)"
    by (auto split: option.splits)
  note one = tsp_call_inv [OF call Suc.prems(2,3)]
  from one have c1: "consistent (seen1, path1)" "\<not> seen1 ! node1" by blast+
  from one have l1: "length seen1 = length seen0" "length path1 = length path0 + 1" "node1 < length seen1"
    by simp_all
  from Suc.IH [OF rest c1] l1 rest show ?case
    by (cases k) auto
qed

lemma tsp_walk:
  "walk N g k ((seen0, path0), node0, cost0) = Some ((seen, path), node, cost) \<Longrightarrow>
   tsp N g (seen0, path0) node0 cost0 = tsp N g (seen, path) node cost"
proof (induction k arbitrary: seen0 path0 node0 cost0)
  case 0
  then show ?case by simp
next
  case (Suc k)
  from Suc.prems obtain seen1 path1 node1 cost1 where
    call: "tsp_call N g ((seen0, path0), node0, cost0) = Some ((seen1, path1), node1, cost1)"
    and rest: "walk N g k ((seen1, path1), node1, cost1) = Some ((seen, path), node, cost)"
    by (auto split: option.splits)
  from tsp_rec [OF call] Suc.IH [OF rest] show ?case by simp
qed

lemma tsp_state:
  assumes "tsp N g (seen, path) node cost = Inr ((seen', path'), r)"
    and "consistent (seen, path)" "node < length seen \<Longrightarrow> \<not> seen ! node"
  shows "consistent (seen', path') \<and> length seen' = length seen \<and> (\<exists>suf. path' = path @ node # suf)"
  using assms
proof (induction seen path node cost rule: tsp_call_induct [where N = N and g = g])
  case (stop seen path node cost)
  from stop(2) tsp_no_call [OF stop(1)]
  have node: "node < length seen" and eq: "seen' = seen[node := True]" "path' = path @ [node]"
    by (auto split: if_splits sum.splits)
  from consistent_step [OF stop(3) node stop(4) [OF node]] eq show ?case by simp
next
  case (call seen path node cost node' cost')
  note one = tsp_call_inv [OF call(1) call(4,5)]
  from call(3) tsp_rec [OF call(1)]
  have "tsp N g (seen[node := True], path @ [node]) node' cost' = Inr ((seen', path'), r)"
    by simp
  from call(2) [OF this] one show ?case by auto
qed


section \<open>Cost, termination and getting stuck\<close>


lemma wsum_snoc: "wsum (ws @ [w]) = wadd (wsum ws) w"
  by (simp add: wsum_def)

lemma path_cost_single: "path_cost g [a] = Fin 0"
  by (simp add: path_cost_def wsum_def)

lemma path_cost_snoc: "path_cost g (p @ [a, b]) = wadd (path_cost g (p @ [a])) (g ! a ! b)"
proof -
  let ?F = "\<lambda>k. g ! ((p @ [a, b]) ! k) ! ((p @ [a, b]) ! (k + 1))"
  let ?G = "\<lambda>k. g ! ((p @ [a]) ! k) ! ((p @ [a]) ! (k + 1))"
  have eq: "map ?F [0..<length p] = map ?G [0..<length p]"
    by (rule map_cong) (auto simp: nth_append)
  have last: "?F (length p) = g ! a ! b"
    by (simp add: nth_append)
  have "path_cost g (p @ [a, b]) = wsum (map ?F [0..<length p] @ [?F (length p)])"
    by (simp add: path_cost_def)
  also have "\<dots> = wadd (wsum (map ?F [0..<length p])) (?F (length p))"
    by (rule wsum_snoc)
  also have "\<dots> = wadd (wsum (map ?G [0..<length p])) (g ! a ! b)"
    by (simp only: eq last)
  also have "wsum (map ?G [0..<length p]) = path_cost g (p @ [a])"
    by (simp add: path_cost_def)
  finally show ?thesis .
qed

lemma edges_snoc:
  assumes "\<forall>k. k + 1 < length (p @ [a]) \<longrightarrow> (\<exists>w. cell g ((p @ [a]) ! k) ((p @ [a]) ! (k + 1)) = Inr (Fin w))"
    and "cell g a b = Inr (Fin w)"
  shows "\<forall>k. k + 1 < length (p @ [a, b]) \<longrightarrow>
           (\<exists>w. cell g ((p @ [a, b]) ! k) ((p @ [a, b]) ! (k + 1)) = Inr (Fin w))"
proof (intro allI impI)
  fix k
  assume k: "k + 1 < length (p @ [a, b])"
  show "\<exists>w. cell g ((p @ [a, b]) ! k) ((p @ [a, b]) ! (k + 1)) = Inr (Fin w)"
  proof (cases "k = length p")
    case True
    with assms(2) show ?thesis by (simp add: nth_append)
  next
    case False
    with k have "k + 1 < length (p @ [a])" by simp
    with assms(1) have "\<exists>w. cell g ((p @ [a]) ! k) ((p @ [a]) ! (k + 1)) = Inr (Fin w)" by blast
    moreover from False k have "(p @ [a, b]) ! k = (p @ [a]) ! k" "(p @ [a, b]) ! (k + 1) = (p @ [a]) ! (k + 1)"
      by (auto simp: nth_append)
    ultimately show ?thesis by simp
  qed
qed

lemma tsp_cost:
  assumes "tsp N g (seen, path) node cost = Inr ((seen', path'), Some c)"
    and "cost = path_cost g (path @ [node])"
    and "\<forall>k. k + 1 < length (path @ [node]) \<longrightarrow>
           (\<exists>w. cell g ((path @ [node]) ! k) ((path @ [node]) ! (k + 1)) = Inr (Fin w))"
  shows "length path' = N \<and> c = path_cost g path' \<and>
         (\<forall>k. k + 1 < length path' \<longrightarrow> (\<exists>w. cell g (path' ! k) (path' ! (k + 1)) = Inr (Fin w)))"
  using assms
proof (induction seen path node cost rule: tsp_call_induct [where N = N and g = g])
  case (stop seen path node cost)
  from stop(2) tsp_no_call [OF stop(1)]
  have "path' = path @ [node]" "length path + 1 = N" "c = cost"
    by (auto split: if_splits sum.splits)
  with stop(3,4) show ?case by simp
next
  case (call seen path node cost node' cost')
  from call(1) have nn: "next_node N g (seen[node := True]) node cost = Inr (Some (cost', node'))"
    by (auto simp: tsp_call_Some)
  from next_node_Some [OF nn] obtain w where
    w: "cell g node node' = Inr (Fin w)" and cost': "cost' = wadd cost (Fin w)"
    by blast
  from w have gw: "g ! node ! node' = Fin w"
    by (simp add: cell_Inr)
  from call(3) tsp_rec [OF call(1)]
  have run: "tsp N g (seen[node := True], path @ [node]) node' cost' = Inr ((seen', path'), Some c)"
    by simp
  have c: "cost' = path_cost g ((path @ [node]) @ [node'])"
    using cost' gw call(4) path_cost_snoc [of g path node node'] by simp
  have e: "\<forall>k. k + 1 < length ((path @ [node]) @ [node']) \<longrightarrow>
      (\<exists>w. cell g (((path @ [node]) @ [node']) ! k) (((path @ [node]) @ [node']) ! (k + 1)) = Inr (Fin w))"
    using edges_snoc [OF call(5) w] by simp
  from call(2) [OF run c e] show ?case .
qed

lemma tsp_total:
  assumes "length g = N" "\<forall>row\<in>set g. length row = N"
    and "length seen = N" "node < N"
    and "consistent (seen, path)" "\<not> seen ! node"
  shows "\<exists>st r. tsp N g (seen, path) node cost = Inr (st, r)"
  using assms(3-)
proof (induction seen path node cost rule: tsp_call_induct [where N = N and g = g])
  case (stop seen path node cost)
  have "\<exists>r. next_node N g (seen[node := True]) node cost = Inr r"
    using assms(1,2) stop(2,3) by (intro next_node_total) auto
  with tsp_no_call [OF stop(1)] stop(2,3) show ?case
    by auto
next
  case (call seen path node cost node' cost')
  have "node < length seen \<Longrightarrow> \<not> seen ! node"
    using call(6) by simp
  note one = tsp_call_inv [OF call(1) call(5) this]
  from one call(3) have "length (seen[node := True]) = N" "node' < N"
    "consistent (seen[node := True], path @ [node])" "\<not> seen[node := True] ! node'"
    by auto
  from call(2) [OF this] tsp_rec [OF call(1)] show ?case by simp
qed

lemma tsp_stuck:
  assumes "node < length seen" "length path + 1 \<noteq> N" "N \<le> length seen"
    and "\<forall>j<N. \<not> seen[node := True] ! j \<longrightarrow> cell g node j = Inr Inf"
  shows "tsp N g (seen, path) node cost = Inr ((seen[node := True], path @ [node]), None)"
proof -
  have "\<exists>r. next_node N g (seen[node := True]) node cost = Inr r"
    using assms(3,4) by (intro next_node_total) (auto simp: cell_Inr)
  then obtain r where r: "next_node N g (seen[node := True]) node cost = Inr r" ..
  have "r = None"
  proof (rule ccontr)
    assume "r \<noteq> None"
    then obtain c i where "r = Some (c, i)" by auto
    with next_node_Some [of N g "seen[node := True]" node cost c i] r assms(4)
    show False by auto
  qed
  with r have call: "tsp_call N g ((seen, path), node, cost) = None"
    by (simp add: tsp_call_def)
  from tsp_no_call [OF call] r \<open>r = None\<close> assms(1,2) show ?thesis
    by simp
qed


lemma walk_init:
  assumes "walk N g k ((replicate N False, []), start, Fin 0) = Some ((seen, path), node, cost)"
  shows "consistent (seen, path)" and "node < length seen \<Longrightarrow> \<not> seen ! node"
    and "length seen = N" and "length path = k" and "0 < k \<Longrightarrow> node < length seen"
proof -
  have "start < length (replicate N False) \<Longrightarrow> \<not> replicate N False ! start"
    by simp
  note inv = walk_inv [OF assms consistent_init this]
  from inv show "consistent (seen, path)" by blast
  from inv show "node < length seen \<Longrightarrow> \<not> seen ! node" by blast
  from inv show "length seen = N" by simp
  from inv show "length path = k" by simp
  from inv show "0 < k \<Longrightarrow> node < length seen" by blast
qed

section \<open>The station indexer\<close>


lemma station_loop_foldl: "station_loop v data = foldl index_station v (stations data)"
  by (induction data arbitrary: v) (simp_all add: stations_def)

lemma index_station_keys: "fst ` set (index_station v s) = insert s (fst ` set v)"
  by (auto simp: index_station_def map_of_eq_None_iff weak_map_of_SomeI image_iff
      dest!: map_of_SomeD)

lemma index_station_distinct: "distinct (map fst v) \<Longrightarrow> distinct (map fst (index_station v s))"
  by (auto simp: index_station_def map_of_eq_None_iff)

lemma index_station_snd:
  "map snd v = [0..<length v] \<Longrightarrow> map snd (index_station v s) = [0..<length (index_station v s)]"
  by (simp add: index_station_def)

lemma foldl_index_keys: "fst ` set (foldl index_station v xs) = fst ` set v \<union> set xs"
  by (induction xs arbitrary: v) (auto simp: index_station_keys)

lemma foldl_index_distinct:
  "distinct (map fst v) \<Longrightarrow> distinct (map fst (foldl index_station v xs))"
  by (induction xs arbitrary: v) (simp_all add: index_station_distinct)

lemma foldl_index_snd:
  "map snd v = [0..<length v] \<Longrightarrow>
   map snd (foldl index_station v xs) = [0..<length (foldl index_station v xs)]"
  by (induction xs arbitrary: v) (simp_all add: index_station_snd)

lemma foldl_index_prefix: "\<exists>ws. foldl index_station v xs = v @ ws"
proof (induction xs arbitrary: v)
  case Nil
  then show ?case by simp
next
  case (Cons x xs)
  from Cons [of "index_station v x"] show ?case
    by (auto simp: index_station_def)
qed

lemma foldl_index_first:
  assumes "s \<in> set xs"
  shows "map_of (foldl index_station [] xs) s = Some (card (set (takeWhile (\<lambda>x. x \<noteq> s) xs)))"
proof -
  let ?pre = "takeWhile (\<lambda>x. x \<noteq> s) xs"
  let ?v1 = "foldl index_station [] ?pre"
  from assms have "dropWhile (\<lambda>x. x \<noteq> s) xs \<noteq> []"
    by auto
  then obtain y rest where dw: "dropWhile (\<lambda>x. x \<noteq> s) xs = y # rest"
    by (cases "dropWhile (\<lambda>x. x \<noteq> s) xs") auto
  with hd_dropWhile [of "\<lambda>x. x \<noteq> s" xs] have "y = s"
    by simp
  with dw takeWhile_dropWhile_id [of "\<lambda>x. x \<noteq> s" xs] have xs: "xs = ?pre @ s # rest"
    by simp
  have keys: "fst ` set ?v1 = set ?pre"
    by (simp add: foldl_index_keys)
  have "s \<notin> set ?pre"
    by (auto dest: set_takeWhileD)
  with keys have new: "map_of ?v1 s = None"
    by (simp add: map_of_eq_None_iff)
  have "distinct (map fst ?v1)"
    by (rule foldl_index_distinct) simp
  then have "length ?v1 = card (fst ` set ?v1)"
    by (metis distinct_card length_map set_map)
  with keys have len: "length ?v1 = card (set ?pre)"
    by simp
  have "foldl index_station [] xs = foldl index_station (?v1 @ [(s, length ?v1)]) rest"
    by (subst xs) (simp add: index_station_def new)
  with foldl_index_prefix [of "?v1 @ [(s, length ?v1)]" rest]
  obtain ws where "foldl index_station [] xs = ?v1 @ [(s, length ?v1)] @ ws"
    by auto
  with new len show ?thesis
    by (simp add: map_add_def)
qed

section \<open>The matrix builder\<close>

lemma min_weight_snoc:
  "min_weight (ws @ [x]) = (if wlt (Fin x) (min_weight ws) then Fin x else min_weight ws)"
proof (cases "ws = []")
  case True
  then show ?thesis by (simp add: min_weight_def)
next
  case False
  define M where "M = Min (set ws)"
  from False have "Min (set (ws @ [x])) = min x M"
    by (simp add: M_def)
  then have new: "min_weight (ws @ [x]) = Fin (min x M)"
    by (simp add: min_weight_def)
  from False have old: "min_weight ws = Fin M"
    by (simp add: min_weight_def M_def)
  show ?thesis
    unfolding new old by (cases "x < M") (auto simp: min_absorb1 min_absorb2 not_less)
qed

lemma fill_append:
  "fill v kind (xs @ ys) m =
     (case fill v kind xs m of Inl e \<Rightarrow> Inl e | Inr m' \<Rightarrow> fill v kind ys m')"
  by (induction xs arbitrary: m) (auto split: sum.splits)

lemma fill_invalid_kind:
  "kind \<noteq> 0 \<Longrightarrow> kind \<noteq> 1 \<Longrightarrow> data \<noteq> [] \<Longrightarrow> fill v kind data m = Inl InvalidArgument"
  by (cases data) auto

lemma relax_ok:
  assumes "map_of v (origin r) = Some a" "map_of v (destination r) = Some b"
    and "a < length m" "b < length (m ! a)"
  shows "relax v r item m =
     Inr (if wlt (Fin item) (m ! a ! b) then m[a := (m ! a)[b := Fin item]] else m)"
  using assms by (simp add: relax_def dict_get_def nth_py_def)

lemma fill_correct:
  assumes "kind = 0 \<or> kind = 1"
    and "\<forall>r\<in>set data. \<exists>a b. map_of v (origin r) = Some a \<and> map_of v (destination r) = Some b \<and>
           a < N \<and> b < N"
  shows "\<exists>m. fill v kind data (replicate N (replicate N Inf)) = Inr m \<and>
           length m = N \<and> (\<forall>i<N. length (m ! i) = N) \<and>
           (\<forall>i<N. \<forall>j<N. m ! i ! j = min_weight (contributing v kind data i j))"
  using assms(2)
proof (induction data rule: rev_induct)
  case Nil
  show ?case
    by (simp add: min_weight_def contributing_def)
next
  case (snoc r data)
  from snoc obtain m where
    m: "fill v kind data (replicate N (replicate N Inf)) = Inr m"
    and len: "length m = N" and rows: "\<forall>i<N. length (m ! i) = N"
    and cells: "\<forall>i<N. \<forall>j<N. m ! i ! j = min_weight (contributing v kind data i j)"
    by auto
  from snoc.prems obtain a b where
    ab: "map_of v (origin r) = Some a" "map_of v (destination r) = Some b" "a < N" "b < N"
    by auto
  let ?item = "weight_of kind r"
  let ?m' = "if wlt (Fin ?item) (m ! a ! b) then m[a := (m ! a)[b := Fin ?item]] else m"
  have rel: "relax v r ?item m = Inr ?m'"
    using ab len rows by (intro relax_ok) auto
  have step: "fill v kind [r] m = Inr ?m'"
    using assms(1) rel by (auto simp: weight_of_def)
  have run: "fill v kind (data @ [r]) (replicate N (replicate N Inf)) = Inr ?m'"
    by (simp only: fill_append m step sum.case)
  have l': "length ?m' = N"
    using len by simp
  have r': "\<forall>i<N. length (?m' ! i) = N"
    using len rows ab by (auto simp: nth_list_update)
  have c': "?m' ! i ! j = min_weight (contributing v kind (data @ [r]) i j)" if "i < N" "j < N" for i j
  proof (cases "i = a \<and> j = b")
    case True
    with ab have "contributing v kind (data @ [r]) i j = contributing v kind data i j @ [?item]"
      by (simp add: contributing_def)
    with True cells ab len rows show ?thesis
      by (simp add: min_weight_snoc)
  next
    case False
    with ab have "contributing v kind (data @ [r]) i j = contributing v kind data i j"
      by (auto simp: contributing_def)
    with False cells that len rows ab(3,4) show ?thesis
      by (auto simp: nth_list_update)
  qed
  from run l' r' c' show ?case
    by blast
qed


lemma to_matr_invalid_kind:
  "kind \<noteq> 0 \<Longrightarrow> kind \<noteq> 1 \<Longrightarrow> data \<noteq> [] \<Longrightarrow> to_matr v data kind = Inl InvalidArgument"
  by (simp add: to_matr_def fill_invalid_kind)

section \<open>The claims\<close>

text \<open>
  C1. The claim asks \<^verbatim>\<open>find_best\<close> to return the finished walk whenever the path
  reaches length N, and cost 0 with the path \<open>[start]\<close> for a single station. The code
  does not: for one station and start 0 it returns no result, whatever the matrix holds,
  because the finished cost 0 is tested for truth.
\<close>

theorem find_best_single_station: "find_best 1 g 0 = Inr None"
proof -
  have nn: "next_node 1 g [True] 0 (Fin 0) = Inr None"
    by (simp add: next_node_def nth_py_def)
  have "tsp_call 1 g (([False], []), 0, Fin 0) = None"
    using nn by (simp add: tsp_call_def)
  from tsp_no_call [OF this] nn
  have "tsp 1 g ([False], []) 0 (Fin 0) = Inr (([True], [0]), Some (Fin 0))"
    by simp
  then show ?thesis
    by (simp add: find_best_def)
qed

text \<open>
  C2. Whenever \<^verbatim>\<open>find_best\<close> returns a result, the path has length N, holds each
  index below N exactly once, starts with the start node, and the cost is the sum of
  \<^verbatim>\<open>matrix[path[k]][path[k+1]]\<close> over the consecutive pairs of the path (each such
  cell was read in range and is finite).
\<close>

theorem find_best_path_valid:
  assumes "find_best N g start = Inr (Some (c, path))"
  shows "length path = N \<and> (\<forall>i<N. count_list path i = 1) \<and> set path = {..<N} \<and>
         path ! 0 = start \<and> c = path_cost g path \<and>
         (\<forall>k. k + 1 < N \<longrightarrow> (\<exists>w. cell g (path ! k) (path ! (k + 1)) = Inr (Fin w)))"
proof -
  from assms obtain seen where
    run: "tsp N g (replicate N False, []) start (Fin 0) = Inr ((seen, path), Some c)"
    by (auto simp: find_best_def split: sum.splits option.splits if_splits)
  from tsp_state [OF run consistent_init]
  have cons: "consistent (seen, path)" and len: "length seen = N"
    and start: "\<exists>suf. path = start # suf"
    by simp_all
  have "length path = N \<and> c = path_cost g path \<and>
      (\<forall>k. k + 1 < length path \<longrightarrow> (\<exists>w. cell g (path ! k) (path ! (k + 1)) = Inr (Fin w)))"
    by (rule tsp_cost [OF run]) (simp_all add: path_cost_single)
  then have n: "length path = N" and c: "c = path_cost g path"
    and e: "\<forall>k. k + 1 < N \<longrightarrow> (\<exists>w. cell g (path ! k) (path ! (k + 1)) = Inr (Fin w))"
    by simp_all
  from consistent_length(2) [OF cons] n len have set: "set path = {..<N}"
    by simp
  from cons have "distinct path"
    by (simp add: consistent_iff)
  with set have "\<forall>i<N. count_list path i = 1"
    by (simp add: distinct_count_list)
  with n set start c e show ?thesis
    by auto
qed


theorem find_best_path_valid_witness:
  "find_best 3 [[Inf, Fin 10, Fin 50], [Inf, Inf, Fin 5], [Inf, Inf, Inf]] 0 = Inr (Some (Fin (15::int), [0, 1, 2])) \<and>
   length [0::nat, 1, 2] = 3 \<and> set [0::nat, 1, 2] = {..<3} \<and> [0::nat, 1, 2] ! 0 = 0 \<and>
   Fin (15::int) = path_cost [[Inf, Fin 10, Fin 50], [Inf, Inf, Fin 5], [Inf, Inf, Inf]] [0, 1, 2]"
proof -
  have fb: "find_best 3 [[Inf, Fin 10, Fin 50], [Inf, Inf, Fin 5], [Inf, Inf, Inf]] 0
      = Inr (Some (Fin (15::int), [0, 1, 2]))"
    by code_simp
  from fb find_best_path_valid [OF fb] show ?thesis
    by blast
qed

text \<open>
  C3. For a station index of size N that holds the stations of the records, and for each
  of the two kinds, \<^verbatim>\<open>to_matr\<close> returns an N by N matrix whose cell \<open>(i, j)\<close> is the
  least weight of the records with origin index \<open>i\<close> and destination index \<open>j\<close>, and
  is infinite when there is no such record. The witness is Scenario D (weights 20 and 8
  for one pair: the cell holds 8).
\<close>

theorem to_matr_minimal:
  assumes "distinct (map fst v)" "length v = N" "\<forall>i\<in>snd ` set v. i < N"
    and "\<forall>r\<in>set data. origin r \<in> fst ` set v \<and> destination r \<in> fst ` set v"
    and "kind = 0 \<or> kind = 1"
  shows "\<exists>m. to_matr v data kind = Inr m \<and> length m = N \<and> (\<forall>row\<in>set m. length row = N) \<and>
           (\<forall>i<N. \<forall>j<N. m ! i ! j = min_weight (contributing v kind data i j))"
proof -
  have key: "\<exists>a. map_of v s = Some a \<and> a < N" if "s \<in> fst ` set v" for s
  proof -
    from that obtain a where a: "map_of v s = Some a"
      by (cases "map_of v s") (auto simp: map_of_eq_None_iff)
    then have "(s, a) \<in> set v"
      by (rule map_of_SomeD)
    then have "a \<in> snd ` set v"
      by force
    with assms(3) a show ?thesis by blast
  qed
  have "\<forall>r\<in>set data. \<exists>a b. map_of v (origin r) = Some a \<and> map_of v (destination r) = Some b \<and>
      a < N \<and> b < N"
    using assms(4) key by blast
  from fill_correct [OF assms(5) this] obtain m where
    m: "fill v kind data (replicate N (replicate N Inf)) = Inr m"
    and len: "length m = N" and rows: "\<forall>i<N. length (m ! i) = N"
    and cells: "\<forall>i<N. \<forall>j<N. m ! i ! j = min_weight (contributing v kind data i j)"
    by blast
  from rows len have "\<forall>row\<in>set m. length row = N"
    by (auto simp: in_set_conv_nth)
  with m len cells assms(2) show ?thesis
    by (simp add: to_matr_def)
qed

theorem to_matr_minimal_witness:
  "to_matr [(7, 0), (9, 1)]
     [\<lparr>route_id = 1, origin = 7, destination = 9, price = 20::int, duration = 60\<rparr>,
      \<lparr>route_id = 2, origin = 7, destination = 9, price = 8, duration = 90\<rparr>] 0
     = Inr [[Inf, Fin 8], [Inf, Inf]] \<and>
   min_weight (contributing [(7, 0), (9, 1)] 0
     [\<lparr>route_id = 1, origin = 7, destination = 9, price = 20::int, duration = 60\<rparr>,
      \<lparr>route_id = 2, origin = 7, destination = 9, price = 8, duration = 90\<rparr>] 0 1) = Fin 8 \<and>
   min_weight (contributing [(7, 0), (9, 1)] 0
     [\<lparr>route_id = 1, origin = 7, destination = 9, price = 20::int, duration = 60\<rparr>,
      \<lparr>route_id = 2, origin = 7, destination = 9, price = 8, duration = 90\<rparr>] 1 0) = Inf"
proof -
  let ?v = "[(7::int, 0::nat), (9, 1)]"
  let ?d = "[\<lparr>route_id = 1, origin = 7, destination = 9, price = 20::int, duration = 60\<rparr>,
      \<lparr>route_id = 2, origin = 7, destination = 9, price = 8, duration = 90\<rparr>]"
  have t: "to_matr ?v ?d 0 = Inr [[Inf, Fin 8], [Inf, Inf]]"
    by code_simp
  have "\<exists>m. to_matr ?v ?d 0 = Inr m \<and> length m = 2 \<and> (\<forall>row\<in>set m. length row = 2) \<and>
      (\<forall>i<2. \<forall>j<2. m ! i ! j = min_weight (contributing ?v 0 ?d i j))"
    by (rule to_matr_minimal) simp_all
  with t have c: "\<forall>i<2. \<forall>j<2. [[Inf, Fin 8], [Inf, Inf]] ! i ! j = min_weight (contributing ?v 0 ?d i j)"
    by simp
  from c [rule_format, of 0 1] c [rule_format, of 1 0] t show ?thesis
    by simp
qed

text \<open>
  C4. When the walk from \<open>start\<close> reaches a call whose path stays shorter than N and
  where every unvisited candidate has infinite weight from the current node,
  \<^verbatim>\<open>find_best\<close> returns no result. The witness is Scenario B: three stations, the edge
  from 0 to 1 of weight 10 and no edge from 1 to an unvisited station.
\<close>

theorem find_best_stuck:
  assumes "walk N g k ((replicate N False, []), start, Fin 0) = Some ((seen, path), node, cost)"
    and "start < N" and "length path + 1 < N"
    and "\<forall>j<N. \<not> seen[node := True] ! j \<longrightarrow> cell g node j = Inr Inf"
  shows "find_best N g start = Inr None"
proof -
  note len = walk_init(3) [OF assms(1)]
  from walk_init(5) [OF assms(1)] have k: "0 < k \<longrightarrow> node < length seen"
    by blast
  have node: "node < length seen"
  proof (cases k)
    case 0
    with assms(1,2) show ?thesis by auto
  next
    case (Suc k')
    with k show ?thesis by simp
  qed
  have "tsp N g (seen, path) node cost = Inr ((seen[node := True], path @ [node]), None)"
    using node assms(3,4) len by (intro tsp_stuck) auto
  with tsp_walk [OF assms(1)] show ?thesis
    by (simp add: find_best_def)
qed

theorem find_best_stuck_witness:
  "walk 3 [[Inf, Fin 10, Fin 50], [Fin 1, Inf, Inf], [Inf, Inf, Inf]] 1
       ((replicate 3 False, []), 0, Fin (0::int)) = Some (([True, False, False], [0]), 1, Fin 10) \<and>
   cell [[Inf, Fin 10, Fin 50], [Fin 1, Inf, Inf], [Inf, Inf, Inf :: int weight]] 1 2 = Inr Inf \<and>
   find_best 3 [[Inf, Fin 10, Fin 50], [Fin 1, Inf, Inf], [Inf, Inf, Inf]] 0 = (Inr None :: error + (int weight \<times> nat list) option)"
proof -
  let ?g = "[[Inf, Fin 10, Fin 50], [Fin 1, Inf, Inf], [Inf, Inf, Inf :: int weight]]"
  have w: "walk 3 ?g 1 ((replicate 3 False, []), 0, Fin 0) = Some (([True, False, False], [0]), 1, Fin 10)"
    by code_simp
  have c: "cell ?g 1 2 = Inr Inf"
    by code_simp
  have stuck: "\<forall>j<3. \<not> [True, False, False][1 := True] ! j \<longrightarrow> cell ?g 1 j = Inr Inf"
    by (simp add: numeral_3_eq_3 less_Suc_eq cell_def nth_py_def)
  have "find_best 3 ?g 0 = Inr None"
    by (rule find_best_stuck [OF w _ _ stuck]) simp_all
  with w c show ?thesis by simp
qed

text \<open>
  C5. At each extension step of the walk the selected node is an unvisited candidate whose
  weight from the current node is finite, no unvisited candidate has a smaller weight,
  and every unvisited candidate of lower index has a strictly greater one: among equal
  minima the lowest index wins. The new cost is the old cost plus that weight.
\<close>

theorem greedy_choice:
  assumes "tsp_call N g ((seen, path), node, cost) = Some ((seen', path'), node', cost')"
  shows "seen' = seen[node := True] \<and> node' < N \<and> \<not> seen' ! node' \<and>
         (\<exists>w. cell g node node' = Inr (Fin w) \<and> cost' = wadd cost (Fin w) \<and>
            (\<forall>j<N. \<not> seen' ! j \<longrightarrow>
               (\<exists>u. cell g node j = Inr u \<and> \<not> wlt u (Fin w) \<and> (j < node' \<longrightarrow> wlt (Fin w) u))))"
proof -
  from assms have nn: "next_node N g (seen[node := True]) node cost = Inr (Some (cost', node'))"
    and eq: "seen' = seen[node := True]"
    by (auto simp: tsp_call_Some)
  from next_node_Some [OF nn] eq show ?thesis
    by simp
qed

theorem greedy_choice_witness:
  "tsp_call 4 [[Inf, Fin 7, Fin 5, Fin 5], [Inf, Inf, Inf, Inf], [Inf, Inf, Inf, Inf], [Inf, Inf, Inf, Inf]]
       (([False, False, False, False], []), 0, Fin (0::int))
     = Some (([True, False, False, False], [0]), 2, Fin 5) \<and>
   (2::nat) < 4 \<and> \<not> [True, False, False, False] ! 2"
proof -
  have c: "tsp_call 4 [[Inf, Fin 7, Fin 5, Fin 5], [Inf, Inf, Inf, Inf], [Inf, Inf, Inf, Inf], [Inf, Inf, Inf, Inf]]
       (([False, False, False, False], []), 0, Fin (0::int))
     = Some (([True, False, False, False], [0]), 2, Fin 5)"
    by code_simp
  from c greedy_choice [OF c] show ?thesis
    by blast
qed

text \<open>
  C6. The claim asks every call with a kind other than 0 and 1 to fail. The kind is only
  examined inside the loop over the records (\<open>to_matr_invalid_kind\<close> is the failure for
  a record list that is not empty), so with no records \<^verbatim>\<open>to_matr\<close> returns the matrix
  of infinities for every kind.
\<close>

theorem to_matr_no_records:
  "to_matr v [] kind = Inr (replicate (length v) (replicate (length v) Inf))"
  by (simp add: to_matr_def)

text \<open>
  C7. The indexer gives each station of the records one index: the keys are distinct and
  are exactly the stations met, the indices are \<open>0, 1, \<dots>\<close> in the order of insertion,
  so they fill the range below N, the index of a station is the number of distinct
  stations met before its first occurrence (origin before destination, in record order),
  and no records give the empty index. As a function of the record list it is
  deterministic.
\<close>

theorem station_indexer_dense:
  "distinct (map fst (station_indexer data)) \<and>
   fst ` set (station_indexer data) = set (stations data) \<and>
   length (station_indexer data) = card (set (stations data)) \<and>
   map snd (station_indexer data) = [0..<length (station_indexer data)] \<and>
   (\<forall>s\<in>set (stations data).
      map_of (station_indexer data) s
        = Some (card (set (takeWhile (\<lambda>x. x \<noteq> s) (stations data))))) \<and>
   station_indexer [] = []"
proof -
  let ?v = "station_indexer data"
  have v: "?v = foldl index_station [] (stations data)"
    by (simp add: station_indexer_def station_loop_foldl)
  have d: "distinct (map fst ?v)"
    unfolding v by (rule foldl_index_distinct) simp
  have k: "fst ` set ?v = set (stations data)"
    unfolding v by (simp add: foldl_index_keys)
  from d have "length ?v = card (fst ` set ?v)"
    by (metis distinct_card length_map set_map)
  with k have l: "length ?v = card (set (stations data))"
    by simp
  have s: "map snd ?v = [0..<length ?v]"
    unfolding v by (rule foldl_index_snd) simp
  have f: "\<forall>s\<in>set (stations data).
      map_of ?v s = Some (card (set (takeWhile (\<lambda>x. x \<noteq> s) (stations data))))"
    unfolding v by (simp add: foldl_index_first)
  have e: "station_indexer [] = []"
    by (simp add: station_indexer_def)
  from d k l s f e show ?thesis
    by blast
qed

theorem station_indexer_dense_witness:
  "station_indexer
     [\<lparr>route_id = 1, origin = 7, destination = 9, price = 20::int, duration = 60\<rparr>,
      \<lparr>route_id = 2, origin = 9, destination = 3, price = 8, duration = 30\<rparr>]
     = [(7, 0), (9, 1), (3, 2)] \<and>
   distinct (map fst [(7::int, 0::nat), (9, 1), (3, 2)]) \<and>
   map snd [(7::int, 0::nat), (9, 1), (3, 2)] = [0..<length [(7::int, 0::nat), (9, 1), (3, 2)]]"
proof -
  let ?d = "[\<lparr>route_id = 1, origin = 7, destination = 9, price = 20::int, duration = 60\<rparr>,
      \<lparr>route_id = 2, origin = 9, destination = 3, price = 8, duration = 30\<rparr>]"
  have v: "station_indexer ?d = [(7, 0), (9, 1), (3, 2)]"
    by code_simp
  from station_indexer_dense [of ?d] have
    "distinct (map fst (station_indexer ?d)) \<and>
     map snd (station_indexer ?d) = [0..<length (station_indexer ?d)]"
    by blast
  with v show ?thesis by (simp only:)
qed

text \<open>
  C8. For an N by N matrix and a start node below N, \<^verbatim>\<open>find_best\<close> returns (a result
  or no result, never an error), and the walk makes fewer than N recursive calls, since
  every call marks a node that was unvisited. The scan of one call is a structural
  recursion over the N candidates, and \<open>tsp\<close> itself is total by its termination proof.
\<close>

theorem find_best_terminates:
  assumes "start < N" "length g = N" "\<forall>row\<in>set g. length row = N"
  shows "(\<exists>r. find_best N g start = Inr r) \<and>
         (\<forall>k c. walk N g k ((replicate N False, []), start, Fin 0) = Some c \<longrightarrow> k < N)"
proof
  have "\<exists>st r. tsp N g (replicate N False, []) start (Fin 0) = Inr (st, r)"
    using assms by (intro tsp_total consistent_init) auto
  then show "\<exists>r. find_best N g start = Inr r"
    by (auto simp: find_best_def split: option.splits)
next
  show "\<forall>k c. walk N g k ((replicate N False, []), start, Fin 0) = Some c \<longrightarrow> k < N"
  proof (intro allI impI)
    fix k and c :: "'a call"
    assume w: "walk N g k ((replicate N False, []), start, Fin 0) = Some c"
    obtain seen path node cost where c: "c = ((seen, path), node, cost)"
      by (cases c) auto
    note wi = walk_init [OF w [unfolded c]]
    note len = wi(3,4)
    show "k < N"
    proof (cases k)
      case 0
      with assms(1) show ?thesis by simp
    next
      case (Suc k')
      with wi(2,5) have "node < length seen" "\<not> seen ! node" by simp_all
      from consistent_length(1) [OF consistent_step [OF wi(1) this]] len
      show ?thesis by simp
    qed
  qed
qed

theorem find_best_terminates_witness:
  "(0::nat) < 3 \<and> length [[Inf, Fin 10, Fin 50], [Inf, Inf, Fin 5], [Inf, Inf, Inf :: int weight]] = 3 \<and>
   (\<exists>r. find_best 3 [[Inf, Fin 10, Fin 50], [Inf, Inf, Fin 5], [Inf, Inf, Inf :: int weight]] 0 = Inr r) \<and>
   walk 3 [[Inf, Fin 10, Fin 50], [Inf, Inf, Fin 5], [Inf, Inf, Inf :: int weight]] 3
      ((replicate 3 False, []), 0, Fin 0) = None"
proof -
  let ?g = "[[Inf, Fin 10, Fin 50], [Inf, Inf, Fin 5], [Inf, Inf, Inf :: int weight]]"
  have "(\<exists>r. find_best 3 ?g 0 = Inr r) \<and>
        (\<forall>k c. walk 3 ?g k ((replicate 3 False, []), 0, Fin 0) = Some c \<longrightarrow> k < 3)"
    by (rule find_best_terminates) simp_all
  then have r: "\<exists>r. find_best 3 ?g 0 = Inr r"
    and b: "\<And>k c. walk 3 ?g k ((replicate 3 False, []), 0, Fin 0) = Some c \<Longrightarrow> k < 3"
    by blast+
  have "walk 3 ?g 3 ((replicate 3 False, []), 0, Fin 0) = None"
  proof (rule ccontr)
    assume "walk 3 ?g 3 ((replicate 3 False, []), 0, Fin 0) \<noteq> None"
    then obtain c where "walk 3 ?g 3 ((replicate 3 False, []), 0, Fin 0) = Some c"
      by blast
    from b [OF this] show False by simp
  qed
  with r show ?thesis by simp
qed

text \<open>
  C9. When the walk finishes (\<^verbatim>\<open>tsp\<close> returns a cost) and the cost is 0, the path
  has length N and its edges sum to 0, and \<^verbatim>\<open>find_best\<close> returns no result instead of
  the finished walk.
\<close>

theorem find_best_zero_cost:
  assumes "tsp N g (replicate N False, []) start (Fin 0) = Inr ((seen, path), Some (Fin 0))"
  shows "length path = N \<and> path_cost g path = Fin 0 \<and> find_best N g start = Inr None"
proof -
  have "length path = N \<and> Fin 0 = path_cost g path \<and>
      (\<forall>k. k + 1 < length path \<longrightarrow> (\<exists>w. cell g (path ! k) (path ! (k + 1)) = Inr (Fin w)))"
    by (rule tsp_cost [OF assms]) (simp_all add: path_cost_single)
  with assms show ?thesis
    by (simp add: find_best_def)
qed

theorem find_best_zero_cost_witness:
  "tsp 2 [[Inf, Fin 0], [Inf, Inf]] (replicate 2 False, []) 0 (Fin (0::int))
     = Inr (([True, True], [0, 1]), Some (Fin 0)) \<and>
   length [0::nat, 1] = 2 \<and>
   find_best 2 [[Inf, Fin 0], [Inf, Inf]] 0 = (Inr None :: error + (int weight \<times> nat list) option)"
proof -
  have t: "tsp 2 [[Inf, Fin 0], [Inf, Inf]] (replicate 2 False, []) 0 (Fin (0::int))
     = Inr (([True, True], [0, 1]), Some (Fin 0))"
    by code_simp
  from t find_best_zero_cost [OF t] show ?thesis
    by blast
qed

text \<open>
  C10. Throughout a run of \<^verbatim>\<open>find_best\<close>, also one that ends without a result, the
  path and the visited list agree at every call of \<^verbatim>\<open>tsp\<close> and at its return: a
  node occurs in the path exactly once when it is marked visited and not at all
  otherwise, so the path never holds a node twice.
\<close>

theorem visited_path_consistent:
  "(\<forall>k seen path node cost.
      walk N g k ((replicate N False, []), start, Fin 0) = Some ((seen, path), node, cost) \<longrightarrow>
      consistent (seen, path) \<and> distinct path) \<and>
   (\<forall>seen path r.
      tsp N g (replicate N False, []) start (Fin 0) = Inr ((seen, path), r) \<longrightarrow>
      consistent (seen, path) \<and> distinct path)"
proof (intro conjI allI impI)
  fix k seen path node cost
  assume "walk N g k ((replicate N False, []), start, Fin 0) = Some ((seen, path), node, cost)"
  from walk_inv [OF this consistent_init] show "consistent (seen, path)"
    by simp
  then show "distinct path"
    by (simp add: consistent_iff)
next
  fix seen path r
  assume "tsp N g (replicate N False, []) start (Fin 0) = Inr ((seen, path), r)"
  from tsp_state [OF this consistent_init] show "consistent (seen, path)"
    by simp
  then show "distinct path"
    by (simp add: consistent_iff)
qed

theorem visited_path_consistent_witness:
  "walk 3 [[Inf, Fin 10, Fin 50], [Fin 1, Inf, Inf], [Inf, Inf, Inf]] 1
       ((replicate 3 False, []), 0, Fin (0::int)) = Some (([True, False, False], [0]), 1, Fin 10) \<and>
   consistent ([True, False, False], [0::nat]) \<and>
   tsp 3 [[Inf, Fin 10, Fin 50], [Fin 1, Inf, Inf], [Inf, Inf, Inf]] (replicate 3 False, []) 0 (Fin (0::int))
     = Inr (([True, True, False], [0, 1]), None) \<and>
   consistent ([True, True, False], [0::nat, 1])"
proof -
  have w: "walk 3 [[Inf, Fin 10, Fin 50], [Fin 1, Inf, Inf], [Inf, Inf, Inf]] 1
       ((replicate 3 False, []), 0, Fin (0::int)) = Some (([True, False, False], [0]), 1, Fin 10)"
    by code_simp
  have t: "tsp 3 [[Inf, Fin 10, Fin 50], [Fin 1, Inf, Inf], [Inf, Inf, Inf]] (replicate 3 False, []) 0 (Fin (0::int))
     = Inr (([True, True, False], [0, 1]), None)"
    by code_simp
  from w t visited_path_consistent [of 3 "[[Inf, Fin 10, Fin 50], [Fin 1, Inf, Inf], [Inf, Inf, Inf]]" 0]
  show ?thesis by blast
qed

end
